theory Spec2Isabelle
  imports Main "HOL-Library.Word"
begin

section \<open>The block header and its size\<close>

text \<open>
  The allocator of \<^verbatim>\<open>src/main.c\<close> works on machine words: \<^verbatim>\<open>size_t\<close> values and
  pointers are both \<open>'w word\<close>, so that every addition, subtraction and multiplication
  of the source wraps the way the C code does. The null pointer is the word \<open>0\<close>, the
  failure value \<^verbatim>\<open>(void *)-1\<close> of \<^verbatim>\<open>sbrk\<close> is the word \<open>-1\<close>.

  \<^verbatim>\<open>sizeof(header_t)\<close> is fixed by the compiler from the declaration
  \<^verbatim>\<open>union header { struct { size_t size; unsigned is_free; union header *next; } s;
  ALIGN stub; }\<close> with \<^verbatim>\<open>typedef char ALIGN[16]\<close>. It is computed here with the layout
  rule of the System V ABIs: each member is placed at the next multiple of its alignment,
  a \<^verbatim>\<open>size_t\<close> and a pointer have the size and alignment of a machine word (\<open>wb\<close> bytes),
  an \<^verbatim>\<open>unsigned\<close> has 4 bytes, a struct is padded to a multiple of its largest member
  alignment, and a union has the size of its largest member padded the same way.
\<close>

definition align_up :: "nat \<Rightarrow> nat \<Rightarrow> nat" where
  "align_up n a = ((n + a - 1) div a) * a"

definition offsetof_is_free :: "nat \<Rightarrow> nat" where
  "offsetof_is_free wb = align_up wb 4"

definition offsetof_next :: "nat \<Rightarrow> nat" where
  "offsetof_next wb = align_up (offsetof_is_free wb + 4) wb"

definition alignof_s :: "nat \<Rightarrow> nat" where
  "alignof_s wb = max wb 4"

definition sizeof_s :: "nat \<Rightarrow> nat" where
  "sizeof_s wb = align_up (offsetof_next wb + wb) (alignof_s wb)"

definition sizeof_ALIGN :: nat where
  "sizeof_ALIGN = 16"

definition sizeof_header_t :: "nat \<Rightarrow> nat" where
  "sizeof_header_t wb = align_up (max (sizeof_s wb) sizeof_ALIGN) (alignof_s wb)"

definition header_size :: "'w::len word" where
  "header_size = of_nat (sizeof_header_t (LENGTH('w) div 8))"

text \<open>
  The three fields of \<^verbatim>\<open>header->s\<close>. \<^verbatim>\<open>is_free\<close> is an \<^verbatim>\<open>unsigned\<close>; the code stores
  0 and 1 in it and tests it for being nonzero.
\<close>

record (overloaded) ('w :: len) header_t =
  s_size :: "'w word"
  s_is_free :: "32 word"
  s_next :: "'w word"

section \<open>The state of the allocator\<close>

text \<open>
  The calls the code makes into its environment, in the order it makes them: the two
  operations on \<^verbatim>\<open>global_malloc_lock\<close> and \<^verbatim>\<open>sbrk\<close> with its argument.
\<close>

datatype 'a event = Lock | Unlock | Sbrk 'a

text \<open>
  \<open>head\<close> and \<open>tail\<close> are the two globals of the source. Headers are typed objects
  in a store indexed by their address (\<open>hdr\<close>): a write through \<^verbatim>\<open>header->s\<close> changes
  the header at that address and no other. The bytes handed to the callers are \<open>mem\<close>,
  a store of its own, written by \<^verbatim>\<open>memset\<close> and \<^verbatim>\<open>memcpy\<close> only; how a header is
  encoded in bytes is not modelled, so the model is exact where headers overlap neither
  each other nor the bytes of a block. \<open>brk\<close> is the program break that \<^verbatim>\<open>sbrk\<close> moves;
  \<open>trace\<close> records the environment calls made so far.
\<close>

record (overloaded) ('w :: len) heap =
  head :: "'w word"
  tail :: "'w word"
  hdr :: "'w word \<Rightarrow> 'w header_t"
  mem :: "'w word \<Rightarrow> 8 word"
  brk :: "'w word"
  trace :: "'w word event list"

definition pthread_mutex_lock :: "('w :: len) heap \<Rightarrow> 'w heap" where
  "pthread_mutex_lock s = s\<lparr>trace := trace s @ [Lock]\<rparr>"

definition pthread_mutex_unlock :: "('w :: len) heap \<Rightarrow> 'w heap" where
  "pthread_mutex_unlock s = s\<lparr>trace := trace s @ [Unlock]\<rparr>"

text \<open>
  \<^verbatim>\<open>sbrk\<close> as the comments at the top of the source describe it: \<^verbatim>\<open>sbrk(0)\<close> gives the
  current break, \<^verbatim>\<open>sbrk(x)\<close> moves the break by \<open>x\<close> bytes and returns the previous
  break, a failure returns \<^verbatim>\<open>(void *)-1\<close> and moves nothing. Whether the operating
  system grants a move is not decided by the program: it is the parameter \<open>os\<close>, asked
  with the current break and the increment.
\<close>

definition sbrk ::
  "('w word \<Rightarrow> 'w word \<Rightarrow> bool) \<Rightarrow> 'w word \<Rightarrow> ('w :: len) heap \<Rightarrow> 'w word \<times> 'w heap" where
  "sbrk os inc s =
     (let s1 = s\<lparr>trace := trace s @ [Sbrk inc]\<rparr> in
      if inc = 0 then (brk s, s1)
      else if os (brk s) inc then (brk s, s1\<lparr>brk := brk s + inc\<rparr>)
      else (- 1, s1))"

text \<open>
  \<^verbatim>\<open>memset(block, c, n)\<close> and \<^verbatim>\<open>memcpy(dst, src, n)\<close> on the byte store: the bytes at
  \<open>block + i\<close> for \<open>i < n\<close> are written, all others are left alone.
\<close>

definition memset :: "'w word \<Rightarrow> 8 word \<Rightarrow> 'w word \<Rightarrow> ('w :: len) heap \<Rightarrow> 'w heap" where
  "memset block c n s = s\<lparr>mem := (\<lambda>a. if a - block < n then c else mem s a)\<rparr>"

definition memcpy :: "'w word \<Rightarrow> 'w word \<Rightarrow> 'w word \<Rightarrow> ('w :: len) heap \<Rightarrow> 'w heap" where
  "memcpy dst src n s =
     s\<lparr>mem := (\<lambda>a. if a - dst < n then mem s (src + (a - dst)) else mem s a)\<rparr>"

section \<open>The operations\<close>

text \<open>
  The \<^verbatim>\<open>while (curr)\<close> loop of \<^verbatim>\<open>get_free_block\<close>. The chain of \<^verbatim>\<open>next\<close> pointers
  may be cyclic, and then the loop may never return: that is the value \<open>None\<close>.
  The loop reads headers only, so it takes the header store.
\<close>

partial_function (option) get_free_block_loop ::
  "('w word \<Rightarrow> ('w :: len) header_t) \<Rightarrow> 'w word \<Rightarrow> 'w word \<Rightarrow> 'w word option" where
  "get_free_block_loop h sz cur =
     (if cur = 0 then Some 0
      else if s_is_free (h cur) \<noteq> 0 \<and> sz \<le> s_size (h cur) then Some cur
      else get_free_block_loop h sz (s_next (h cur)))"

declare get_free_block_loop.simps [code]

definition get_free_block :: "('w :: len) heap \<Rightarrow> 'w word \<Rightarrow> 'w word option" where
  "get_free_block s sz = get_free_block_loop (hdr s) sz (head s)"

definition malloc ::
  "('w word \<Rightarrow> 'w word \<Rightarrow> bool) \<Rightarrow> 'w word \<Rightarrow> ('w :: len) heap \<Rightarrow> ('w word \<times> 'w heap) option" where
  "malloc os sz s =
     (if sz = 0 then Some (0, s)
      else
        let s1 = pthread_mutex_lock s in
        case get_free_block s1 sz of
          None \<Rightarrow> None
        | Some header \<Rightarrow>
            if header \<noteq> 0 then
              let s2 = s1\<lparr>hdr := (hdr s1)(header := (hdr s1 header)\<lparr>s_is_free := 0\<rparr>)\<rparr>
              in Some (header + header_size, pthread_mutex_unlock s2)
            else
              let total_size = header_size + sz;
                  (block, s2) = sbrk os total_size s1
              in if block = - 1 then Some (0, pthread_mutex_unlock s2)
                 else
                   let header = block;
                       s3 = s2\<lparr>hdr := (hdr s2)(header := (hdr s2 header)\<lparr>s_size := sz\<rparr>)\<rparr>;
                       s4 = s3\<lparr>hdr := (hdr s3)(header := (hdr s3 header)\<lparr>s_is_free := 0\<rparr>)\<rparr>;
                       s5 = s4\<lparr>hdr := (hdr s4)(header := (hdr s4 header)\<lparr>s_next := 0\<rparr>)\<rparr>;
                       s6 = (if head s5 = 0 then s5\<lparr>head := header\<rparr> else s5);
                       s7 = (if tail s6 \<noteq> 0
                             then s6\<lparr>hdr := (hdr s6)(tail s6 := (hdr s6 (tail s6))\<lparr>s_next := header\<rparr>)\<rparr>
                             else s6);
                       s8 = s7\<lparr>tail := header\<rparr>
                   in Some (header + header_size, pthread_mutex_unlock s8))"

text \<open>
  The \<^verbatim>\<open>while (tmp)\<close> loop of \<^verbatim>\<open>free\<close>. Its body first tests
  \<^verbatim>\<open>tmp->s.next == tail\<close> and, if so, clears that \<^verbatim>\<open>next\<close> and moves \<^verbatim>\<open>tail\<close>
  (\<open>free_loop_body\<close>); then \<^verbatim>\<open>tmp = tmp->s.next\<close> reads the field as the body left it.
  As above, \<open>None\<close> is a loop that does not return.
\<close>

definition free_loop_body :: "('w :: len) heap \<Rightarrow> 'w word \<Rightarrow> 'w heap" where
  "free_loop_body s tmp =
     (if s_next (hdr s tmp) = tail s
      then s\<lparr>hdr := (hdr s)(tmp := (hdr s tmp)\<lparr>s_next := 0\<rparr>), tail := tmp\<rparr>
      else s)"

partial_function (option) free_loop ::
  "('w :: len) heap \<Rightarrow> 'w word \<Rightarrow> 'w heap option" where
  "free_loop s tmp =
     (if tmp = 0 then Some s
      else free_loop (free_loop_body s tmp) (s_next (hdr (free_loop_body s tmp) tmp)))"

declare free_loop.simps [code]

definition free ::
  "('w word \<Rightarrow> 'w word \<Rightarrow> bool) \<Rightarrow> 'w word \<Rightarrow> ('w :: len) heap \<Rightarrow> 'w heap option" where
  "free os block s =
     (if block = 0 then Some s
      else
        let s1 = pthread_mutex_lock s;
            header = block - header_size;
            (programbreak, s2) = sbrk os 0 s1
        in if block + s_size (hdr s2 header) = programbreak then
             (case (if head s2 = tail s2 then Some (s2\<lparr>tail := 0, head := 0\<rparr>)
                    else free_loop s2 (head s2)) of
                None \<Rightarrow> None
              | Some s3 \<Rightarrow>
                  let (r, s4) = sbrk os (0 - header_size - s_size (hdr s3 header)) s3
                  in Some (pthread_mutex_unlock s4))
           else
             Some (pthread_mutex_unlock
               (s2\<lparr>hdr := (hdr s2)(header := (hdr s2 header)\<lparr>s_is_free := 1\<rparr>)\<rparr>)))"

definition calloc ::
  "('w word \<Rightarrow> 'w word \<Rightarrow> bool) \<Rightarrow> 'w word \<Rightarrow> 'w word \<Rightarrow> ('w :: len) heap
     \<Rightarrow> ('w word \<times> 'w heap) option" where
  "calloc os num nsize s =
     (if num = 0 \<or> nsize = 0 then Some (0, s)
      else
        let sz = num * nsize in
        if nsize \<noteq> sz div num then Some (0, s)
        else
          case malloc os sz s of
            None \<Rightarrow> None
          | Some (block, s1) \<Rightarrow>
              if block = 0 then Some (0, s1)
              else Some (block, memset block 0 sz s1))"

definition realloc ::
  "('w word \<Rightarrow> 'w word \<Rightarrow> bool) \<Rightarrow> 'w word \<Rightarrow> 'w word \<Rightarrow> ('w :: len) heap
     \<Rightarrow> ('w word \<times> 'w heap) option" where
  "realloc os block sz s =
     (if block = 0 \<or> sz = 0 then malloc os sz s
      else
        let header = block - header_size in
        if sz \<le> s_size (hdr s header) then Some (block, s)
        else
          case malloc os sz s of
            None \<Rightarrow> None
          | Some (ret, s1) \<Rightarrow>
              if ret \<noteq> 0 then
                (case free os block (memcpy ret block (s_size (hdr s1 header)) s1) of
                   None \<Rightarrow> None
                 | Some s2 \<Rightarrow> Some (ret, s2))
              else Some (ret, s1))"

section \<open>The free list as a list of header addresses\<close>

text \<open>
  \<open>chain h a bs\<close>: following \<^verbatim>\<open>next\<close> from the address \<open>a\<close> visits exactly the
  non-null headers \<open>bs\<close>, in this order, and then reaches the null pointer. With
  \<open>a = head s\<close> the list \<open>bs\<close> is the free list in creation order.
\<close>

fun chain :: "('w word \<Rightarrow> ('w :: len) header_t) \<Rightarrow> 'w word \<Rightarrow> 'w word list \<Rightarrow> bool" where
  "chain h a [] \<longleftrightarrow> a = 0"
| "chain h a (b # bs) \<longleftrightarrow> a = b \<and> b \<noteq> 0 \<and> chain h (s_next (h b)) bs"

text \<open>The test of \<^verbatim>\<open>get_free_block\<close>: the block is free and large enough.\<close>

definition fits :: "('w word \<Rightarrow> ('w :: len) header_t) \<Rightarrow> 'w word \<Rightarrow> 'w word \<Rightarrow> bool" where
  "fits h sz b \<longleftrightarrow> s_is_free (h b) \<noteq> 0 \<and> sz \<le> s_size (h b)"

text \<open>
  The end of the block with header \<open>b\<close>, as the pointer the code computes
  (\<open>block_end\<close>) and as a number (\<open>block_end_nat\<close>); \<open>no_wrap\<close> says that the block
  lies inside the address space, so that the two agree.
\<close>

definition block_end :: "('w word \<Rightarrow> ('w :: len) header_t) \<Rightarrow> 'w word \<Rightarrow> 'w word" where
  "block_end h b = b + header_size + s_size (h b)"

definition block_end_nat :: "('w word \<Rightarrow> ('w :: len) header_t) \<Rightarrow> 'w word \<Rightarrow> nat" where
  "block_end_nat h b = unat b + unat (header_size :: 'w word) + unat (s_size (h b))"

definition no_wrap :: "('w word \<Rightarrow> ('w :: len) header_t) \<Rightarrow> 'w word \<Rightarrow> bool" where
  "no_wrap h b \<longleftrightarrow> block_end_nat h b < 2 ^ LENGTH('w)"

text \<open>
  Blocks are carved one after the other at the break: each block of the list starts where
  the block before it ends.
\<close>

fun contiguous :: "('w word \<Rightarrow> ('w :: len) header_t) \<Rightarrow> 'w word list \<Rightarrow> bool" where
  "contiguous h [] \<longleftrightarrow> True"
| "contiguous h [b] \<longleftrightarrow> no_wrap h b"
| "contiguous h (b # c # bs) \<longleftrightarrow> no_wrap h b \<and> c = block_end h b \<and> contiguous h (c # bs)"

text \<open>
  The states the allocator builds: the free list from \<open>head\<close> is \<open>bs\<close>, \<open>tail\<close> is its
  last block, the blocks are contiguous, and the break is the end of the last block.
\<close>

definition heap_wf :: "('w :: len) heap \<Rightarrow> 'w word list \<Rightarrow> bool" where
  "heap_wf s bs \<longleftrightarrow>
     chain (hdr s) (head s) bs \<and>
     tail s = (if bs = [] then 0 else last bs) \<and>
     contiguous (hdr s) bs \<and>
     (bs \<noteq> [] \<longrightarrow> brk s = block_end (hdr s) (last bs))"

section \<open>Example states\<close>

text \<open>
  Two operating systems, one that grants every move of the break and one that refuses
  every move, and states of a 64-bit allocator: the empty heap with the break at 4096;
  the heap after \<^verbatim>\<open>malloc(16)\<close> (block \<open>X\<close> at 4120); after \<^verbatim>\<open>malloc(32)\<close> as well
  (block \<open>Y\<close> at 4160); that heap after the caller wrote 255 at \<open>X + 10\<close> and freed
  \<open>X\<close>; the result of \<^verbatim>\<open>calloc(1, 10)\<close> there; a heap of four blocks of which the
  two in the middle are free; and the heap after \<^verbatim>\<open>malloc(16)\<close> and
  \<^verbatim>\<open>malloc(2^64 - 24)\<close>, where \<^verbatim>\<open>sizeof(header_t) + size\<close> wrapped to 0, before and
  after \<^verbatim>\<open>free(X)\<close>.
\<close>

definition os_grants_all :: "'w word \<Rightarrow> 'w word \<Rightarrow> bool" where
  "os_grants_all b inc = True"

definition os_refuses_all :: "'w word \<Rightarrow> 'w word \<Rightarrow> bool" where
  "os_refuses_all b inc = False"

definition no_header :: "('w :: len) header_t" where
  "no_header = \<lparr>s_size = 0, s_is_free = 0, s_next = 0\<rparr>"

definition heap0 :: "64 heap" where
  "heap0 = \<lparr>head = 0, tail = 0, hdr = (\<lambda>a. no_header), mem = (\<lambda>a. 0), brk = 4096,
     trace = []\<rparr>"

definition heap_x :: "64 heap" where
  "heap_x = \<lparr>head = 4096, tail = 4096,
      hdr = (\<lambda>a. no_header)(4096 := \<lparr>s_size = 16, s_is_free = 0, s_next = 0\<rparr>),
      mem = (\<lambda>a. 0), brk = 4136,
      trace = [Lock, Sbrk 40, Unlock]\<rparr>"

definition heap_xy :: "64 heap" where
  "heap_xy = \<lparr>head = 4096, tail = 4136,
      hdr = (\<lambda>a. no_header)
        (4096 := \<lparr>s_size = 16, s_is_free = 0, s_next = 4136\<rparr>,
         4136 := \<lparr>s_size = 32, s_is_free = 0, s_next = 0\<rparr>),
      mem = (\<lambda>a. 0), brk = 4192,
      trace = [Lock, Sbrk 40, Unlock, Lock, Sbrk 56, Unlock]\<rparr>"

definition heap_dirty :: "64 heap" where
  "heap_dirty = \<lparr>head = 4096, tail = 4136,
      hdr = (\<lambda>a. no_header)
        (4096 := \<lparr>s_size = 16, s_is_free = 1, s_next = 4136\<rparr>,
         4136 := \<lparr>s_size = 32, s_is_free = 0, s_next = 0\<rparr>),
      mem = (\<lambda>a. 0)(4130 := 255), brk = 4192,
      trace = [Lock, Sbrk 40, Unlock, Lock, Sbrk 56, Unlock, Lock, Sbrk 0, Unlock]\<rparr>"

definition heap_dirty_calloc :: "64 heap" where
  "heap_dirty_calloc = memset 4120 0 10
     (heap_dirty\<lparr>hdr := (hdr heap_dirty)
                    (4096 := \<lparr>s_size = 16, s_is_free = 0, s_next = 4136\<rparr>),
                 trace := trace heap_dirty @ [Lock, Unlock]\<rparr>)"

definition heap_four :: "64 heap" where
  "heap_four = \<lparr>head = 4096, tail = 4280,
      hdr = (\<lambda>a. no_header)
        (4096 := \<lparr>s_size = 16, s_is_free = 0, s_next = 4136\<rparr>,
         4136 := \<lparr>s_size = 32, s_is_free = 1, s_next = 4192\<rparr>,
         4192 := \<lparr>s_size = 64, s_is_free = 1, s_next = 4280\<rparr>,
         4280 := \<lparr>s_size = 8, s_is_free = 0, s_next = 0\<rparr>),
      mem = (\<lambda>a. 0), brk = 4312,
      trace = [Lock, Sbrk 40, Unlock, Lock, Sbrk 56, Unlock, Lock, Sbrk 88, Unlock,
               Lock, Sbrk 32, Unlock, Lock, Sbrk 0, Unlock, Lock, Sbrk 0, Unlock]\<rparr>"

definition heap_wrap :: "64 heap" where
  "heap_wrap = \<lparr>head = 4096, tail = 4136,
      hdr = (\<lambda>a. no_header)
        (4096 := \<lparr>s_size = 16, s_is_free = 0, s_next = 4136\<rparr>,
         4136 := \<lparr>s_size = 18446744073709551592, s_is_free = 0, s_next = 0\<rparr>),
      mem = (\<lambda>a. 0), brk = 4136,
      trace = [Lock, Sbrk 40, Unlock, Lock, Sbrk 0, Unlock]\<rparr>"

definition heap_wrap_freed :: "64 heap" where
  "heap_wrap_freed = \<lparr>head = 4096, tail = 4096,
      hdr = (\<lambda>a. no_header)
        (4096 := \<lparr>s_size = 16, s_is_free = 0, s_next = 0\<rparr>,
         4136 := \<lparr>s_size = 18446744073709551592, s_is_free = 0, s_next = 0\<rparr>),
      mem = (\<lambda>a. 0), brk = 4096,
      trace = [Lock, Sbrk 40, Unlock, Lock, Sbrk 0, Unlock,
               Lock, Sbrk 0, Sbrk 18446744073709551576, Unlock]\<rparr>"

section \<open>Basic facts\<close>

lemmas layout_defs = header_size_def sizeof_header_t_def sizeof_s_def alignof_s_def
  offsetof_next_def offsetof_is_free_def align_up_def sizeof_ALIGN_def

lemmas op_defs = malloc_def free_def calloc_def realloc_def get_free_block_def sbrk_def
  pthread_mutex_lock_def pthread_mutex_unlock_def memset_def memcpy_def free_loop_body_def
  Let_def

lemmas heap_defs = heap0_def heap_x_def heap_xy_def heap_dirty_def heap_dirty_calloc_def
  heap_four_def heap_wrap_def heap_wrap_freed_def no_header_def os_grants_all_def
  os_refuses_all_def

lemmas wf_defs = heap_wf_def no_wrap_def block_end_def block_end_nat_def

lemma header_size_ilp32: "LENGTH('w :: len) = 32 \<Longrightarrow> (header_size :: 'w word) = 16"
  by (simp add: layout_defs)

lemma header_size_lp64: "LENGTH('w :: len) = 64 \<Longrightarrow> (header_size :: 'w word) = 24"
  by (simp add: layout_defs)

lemma header_size_64 [simp]: "(header_size :: 64 word) = 24"
  by (simp add: header_size_lp64)

lemma header_size_32 [simp]: "(header_size :: 32 word) = 16"
  by (simp add: header_size_ilp32)

lemma unat_header_size:
  assumes "LENGTH('w :: len) = 32 \<or> LENGTH('w) = 64"
  shows "unat (header_size :: 'w word) = (if LENGTH('w) = 32 then 16 else 24)"
  using assms by (auto simp: layout_defs unat_of_nat)

lemma sbrk_0: "sbrk os 0 s = (brk s, s\<lparr>trace := trace s @ [Sbrk 0]\<rparr>)"
  by (simp add: sbrk_def)

lemma sbrk_granted:
  "inc = 0 \<or> os (brk s) inc \<Longrightarrow>
     sbrk os inc s = (brk s, s\<lparr>trace := trace s @ [Sbrk inc], brk := brk s + inc\<rparr>)"
  by (auto simp: sbrk_def Let_def)

lemma malloc_mem: "malloc os sz s = Some (r, s1) \<Longrightarrow> mem s1 = mem s"
  by (auto simp: malloc_def sbrk_def pthread_mutex_lock_def pthread_mutex_unlock_def Let_def
      split: if_splits option.splits)

text \<open>The state after \<^verbatim>\<open>malloc\<close>, branch by branch.\<close>

lemma malloc_reuse_state:
  "sz \<noteq> 0 \<Longrightarrow> get_free_block s sz = Some h \<Longrightarrow> h \<noteq> 0 \<Longrightarrow>
     malloc os sz s =
       Some (h + header_size,
             s\<lparr>hdr := (hdr s)(h := (hdr s h)\<lparr>s_is_free := 0\<rparr>),
               trace := trace s @ [Lock, Unlock]\<rparr>)"
  by (simp add: malloc_def pthread_mutex_lock_def pthread_mutex_unlock_def get_free_block_def)

lemma malloc_refused_state:
  "sz \<noteq> 0 \<Longrightarrow> get_free_block s sz = Some 0 \<Longrightarrow> header_size + sz \<noteq> 0 \<Longrightarrow>
     \<not> os (brk s) (header_size + sz) \<Longrightarrow>
     malloc os sz s =
       Some (0, s\<lparr>trace := trace s @ [Lock, Sbrk (header_size + sz), Unlock]\<rparr>)"
  by (simp add: malloc_def sbrk_def pthread_mutex_lock_def pthread_mutex_unlock_def
      get_free_block_def Let_def)

lemma malloc_grow_state:
  "sz \<noteq> 0 \<Longrightarrow> get_free_block s sz = Some 0 \<Longrightarrow> header_size + sz \<noteq> 0 \<Longrightarrow>
     os (brk s) (header_size + sz) \<Longrightarrow> brk s \<noteq> - 1 \<Longrightarrow>
     \<exists>s'. malloc os sz s = Some (brk s + header_size, s') \<and>
       hdr s' =
         (if tail s \<noteq> 0
          then ((hdr s)(brk s := (hdr s (brk s))\<lparr>s_size := sz, s_is_free := 0, s_next := 0\<rparr>))
                 (tail s := (((hdr s)(brk s := (hdr s (brk s))
                      \<lparr>s_size := sz, s_is_free := 0, s_next := 0\<rparr>)) (tail s))
                    \<lparr>s_next := brk s\<rparr>)
          else (hdr s)(brk s := (hdr s (brk s))\<lparr>s_size := sz, s_is_free := 0, s_next := 0\<rparr>)) \<and>
       head s' = (if head s = 0 then brk s else head s) \<and>
       tail s' = brk s \<and>
       brk s' = brk s + (header_size + sz) \<and>
       mem s' = mem s \<and>
       trace s' = trace s @ [Lock, Sbrk (header_size + sz), Unlock]"
  by (simp add: malloc_def sbrk_granted pthread_mutex_lock_def pthread_mutex_unlock_def
      get_free_block_def Let_def)

lemma malloc_returns_search:
  "malloc os sz s = Some (r, s') \<Longrightarrow> sz \<noteq> 0 \<Longrightarrow> \<exists>h. get_free_block s sz = Some h"
  by (cases "get_free_block s sz")
    (simp_all add: malloc_def pthread_mutex_lock_def get_free_block_def)

text \<open>The example states are states the allocator reaches from the empty heap.\<close>

lemma heap_x_reached: "malloc os_grants_all 16 heap0 = Some (4120, heap_x)"
  by (simp add: op_defs heap_defs get_free_block_loop.simps)

lemma heap_xy_reached: "malloc os_grants_all 32 heap_x = Some (4160, heap_xy)"
  by (simp add: op_defs heap_defs get_free_block_loop.simps fun_upd_twist)

lemma heap_dirty_reached:
  "free os_grants_all 4120 (heap_xy\<lparr>mem := (mem heap_xy)(4130 := 255)\<rparr>) = Some heap_dirty"
  by (simp add: op_defs heap_defs fun_upd_twist)

lemma heap_four_reached:
  "Option.bind (malloc os_grants_all 64 heap_xy) (\<lambda>(z, s1).
   Option.bind (malloc os_grants_all 8 s1) (\<lambda>(u, s2).
   Option.bind (free os_grants_all 4160 s2) (\<lambda>s3.
   Option.bind (free os_grants_all z s3) (\<lambda>s4. Some (z, u, s4))))) =
   Some (4216, 4304, heap_four)"
  by (simp add: op_defs heap_defs get_free_block_loop.simps fun_upd_twist)

section \<open>The search for a free block\<close>

lemma get_free_block_loop_fits:
  assumes "get_free_block_loop h sz cur = Some r"
  shows "r \<noteq> 0 \<longrightarrow> fits h sz r"
proof (rule get_free_block_loop.raw_induct
    [where P = "\<lambda>h sz cur r. r \<noteq> 0 \<longrightarrow> fits h sz r", OF _ assms])
  fix loop :: "('a word \<Rightarrow> 'a header_t) \<Rightarrow> 'a word \<Rightarrow> 'a word \<Rightarrow> 'a word option"
  fix h sz cur r
  assume IH: "\<And>h sz cur r. loop h sz cur = Some r \<Longrightarrow> r \<noteq> 0 \<longrightarrow> fits h sz r"
    and body: "(if cur = 0 then Some 0
                else if s_is_free (h cur) \<noteq> 0 \<and> sz \<le> s_size (h cur) then Some cur
                else loop h sz (s_next (h cur))) = Some r"
  show "r \<noteq> 0 \<longrightarrow> fits h sz r"
    using IH body by (auto simp: fits_def split: if_splits)
qed

lemma get_free_block_loop_chain:
  "chain h a bs \<Longrightarrow>
     get_free_block_loop h sz a = Some (case find (fits h sz) bs of None \<Rightarrow> 0 | Some b \<Rightarrow> b)"
proof (induction bs arbitrary: a)
  case Nil
  then show ?case by (simp add: get_free_block_loop.simps)
next
  case (Cons b bs)
  have f: "fits h sz b \<longleftrightarrow> s_is_free (h b) \<noteq> 0 \<and> sz \<le> s_size (h b)"
    by (simp add: fits_def)
  from Cons.prems have ab: "a = b" "b \<noteq> 0" and rest: "chain h (s_next (h b)) bs"
    by simp_all
  show ?case
    using ab Cons.IH [OF rest] f
    by (subst get_free_block_loop.simps) auto
qed

lemma chain_nonnull: "chain h a bs \<Longrightarrow> 0 \<notin> set bs"
  by (induction bs arbitrary: a) auto

text \<open>
  Claim C2. On every null-terminated free list, whatever the requested size,
  \<^verbatim>\<open>get_free_block\<close> returns; it returns the first block in creation order that is free
  and whose recorded size is at least the requested size, and it returns the null pointer
  exactly when no block of the list is both.
\<close>

theorem get_free_block_first_fit:
  assumes "chain (hdr s) (head s) bs"
  shows "\<exists>r. get_free_block s sz = Some r \<and>
           (r = 0 \<longleftrightarrow> (\<forall>b \<in> set bs. \<not> fits (hdr s) sz b)) \<and>
           (r \<noteq> 0 \<longrightarrow> (\<exists>i < length bs. r = bs ! i \<and> fits (hdr s) sz r \<and>
                             (\<forall>j < i. \<not> fits (hdr s) sz (bs ! j))))"
proof -
  have run: "get_free_block s sz =
      Some (case find (fits (hdr s) sz) bs of None \<Rightarrow> 0 | Some b \<Rightarrow> b)"
    using get_free_block_loop_chain [OF assms, of sz] by (simp add: get_free_block_def)
  show ?thesis
  proof (cases "find (fits (hdr s) sz) bs")
    case None
    then have "\<forall>b \<in> set bs. \<not> fits (hdr s) sz b"
      by (simp add: find_None_iff)
    with None run show ?thesis by simp
  next
    case (Some b)
    then obtain i where i: "i < length bs" "fits (hdr s) sz (bs ! i)" "b = bs ! i"
      "\<forall>j < i. \<not> fits (hdr s) sz (bs ! j)"
      by (auto simp: find_Some_iff)
    then have "b \<in> set bs" by simp
    with chain_nonnull [OF assms] have "b \<noteq> 0" by auto
    with Some i run show ?thesis by auto
  qed
qed

text \<open>
  In the heap of four blocks the second and the third are free, with 32 and 64 bytes. A
  request of 20 bytes gets the second, the earlier of the two that fit; a request of 100
  bytes gets nothing.
\<close>

theorem get_free_block_first_fit_witness:
  "chain (hdr heap_four) (head heap_four) [4096, 4136, 4192, 4280] \<and>
   get_free_block heap_four 20 = Some 4136 \<and>
   fits (hdr heap_four) 20 4136 \<and> fits (hdr heap_four) 20 4192 \<and>
   \<not> fits (hdr heap_four) 20 4096 \<and>
   get_free_block heap_four 100 = Some 0"
  using get_free_block_first_fit [of heap_four "[4096, 4136, 4192, 4280]" 20]
    get_free_block_first_fit [of heap_four "[4096, 4136, 4192, 4280]" 100]
  by (simp add: heap_defs get_free_block_def get_free_block_loop.simps fits_def)

section \<open>Allocation\<close>

text \<open>
  Claim C3. When \<^verbatim>\<open>malloc(size)\<close> finds a free block to reuse, it returns the address
  just behind that block's header, and the only header field it writes is the block's
  \<^verbatim>\<open>is_free\<close>, set to 0: the recorded size stays what it was, at least the requested
  size, and head, tail, break, the other headers and the bytes are unchanged.
\<close>

theorem malloc_reuse_keeps_size:
  assumes "sz \<noteq> 0" and "get_free_block s sz = Some header" and "header \<noteq> 0"
  shows "malloc os sz s =
           Some (header + header_size,
                 s\<lparr>hdr := (hdr s)(header := (hdr s header)\<lparr>s_is_free := 0\<rparr>),
                   trace := trace s @ [Lock, Unlock]\<rparr>) \<and>
         sz \<le> s_size (hdr s header)"
  using assms get_free_block_loop_fits [of "hdr s" sz "head s" header]
  by (simp add: malloc_def pthread_mutex_lock_def pthread_mutex_unlock_def
      get_free_block_def fits_def)

theorem malloc_reuse_keeps_size_witness:
  "(10 :: 64 word) \<noteq> 0 \<and> get_free_block heap_dirty 10 = Some 4096 \<and> (4096 :: 64 word) \<noteq> 0 \<and>
   malloc os_grants_all 10 heap_dirty =
     Some (4120, heap_dirty\<lparr>hdr := (hdr heap_dirty)
                    (4096 := \<lparr>s_size = 16, s_is_free = 0, s_next = 4136\<rparr>),
                 trace := trace heap_dirty @ [Lock, Unlock]\<rparr>) \<and>
   s_size (hdr heap_dirty 4096) = 16"
  using malloc_reuse_keeps_size [of 10 heap_dirty 4096 os_grants_all]
  by (simp add: heap_defs get_free_block_def get_free_block_loop.simps)

section \<open>Release\<close>

subsection \<open>Null-terminated lists\<close>

lemma chain_det: "chain h a bs \<Longrightarrow> chain h a cs \<Longrightarrow> bs = cs"
proof (induction bs arbitrary: a cs)
  case Nil
  then show ?case by (cases cs) auto
next
  case (Cons b bs)
  then show ?case by (cases cs) auto
qed

lemma chain_suffix: "chain h a (xs @ b # ys) \<Longrightarrow> chain h b (b # ys)"
  by (induction xs arbitrary: a) auto

text \<open>A list that reaches the null pointer visits no header twice.\<close>

lemma chain_distinct: "chain h a bs \<Longrightarrow> distinct bs"
proof (induction bs arbitrary: a)
  case Nil
  then show ?case by simp
next
  case (Cons b bs)
  then have rest: "chain h (s_next (h b)) bs" and ab: "a = b" by simp_all
  have "b \<notin> set bs"
  proof
    assume "b \<in> set bs"
    then obtain xs ys where bs: "bs = xs @ b # ys" by (auto dest: split_list)
    with rest have "chain h b (b # ys)" by (auto dest: chain_suffix)
    moreover from Cons.prems ab bs have "chain h b (b # xs @ b # ys)" by simp
    ultimately have "b # ys = b # xs @ b # ys" by (rule chain_det)
    then have "length ys = length (xs @ b # ys)" by simp
    then show False by simp
  qed
  with Cons.IH [OF rest] show ?case by simp
qed

lemma chain_hd: "chain h a bs \<Longrightarrow> bs \<noteq> [] \<Longrightarrow> a = hd bs \<and> a \<noteq> 0"
  by (cases bs) auto

lemma chain_last_two: "chain h a (pre @ [p, t]) \<Longrightarrow> s_next (h p) = t"
  by (induction pre arbitrary: a) auto

lemma chain_cong:
  "\<forall>b \<in> set bs. s_next (h' b) = s_next (h b) \<Longrightarrow> chain h' a bs = chain h a bs"
  by (induction bs arbitrary: a) auto

lemma contiguous_cong:
  "\<forall>b \<in> set bs. s_size (h' b) = s_size (h b) \<Longrightarrow> contiguous h' bs = contiguous h bs"
  by (induction h bs rule: contiguous.induct) (auto simp: no_wrap_def block_end_def block_end_nat_def)

lemma chain_snoc:
  "chain h a bs \<Longrightarrow> bs \<noteq> [] \<Longrightarrow> n \<noteq> 0 \<Longrightarrow> s_next (h' n) = 0 \<Longrightarrow>
     s_next (h' (last bs)) = n \<Longrightarrow> \<forall>b \<in> set (butlast bs). s_next (h' b) = s_next (h b) \<Longrightarrow>
     chain h' a (bs @ [n])"
proof (induction bs arbitrary: a)
  case Nil
  then show ?case by simp
next
  case (Cons x xs)
  then show ?case by (cases "xs = []") auto
qed

lemma chain_drop_last:
  "chain h a (pre @ [p, t]) \<Longrightarrow> s_next (h' p) = 0 \<Longrightarrow>
     \<forall>b \<in> set pre. s_next (h' b) = s_next (h b) \<Longrightarrow> chain h' a (pre @ [p])"
  by (induction pre arbitrary: a) auto

lemma last_notin_butlast: "distinct bs \<Longrightarrow> bs \<noteq> [] \<Longrightarrow> last bs \<notin> set (butlast bs)"
proof -
  assume "distinct bs" "bs \<noteq> []"
  then have "distinct (butlast bs @ [last bs])" by simp
  then show ?thesis by simp
qed

subsection \<open>The unlinking loop\<close>

text \<open>
  On a list of at least two blocks whose last block is \<open>tail\<close>, the loop returns: it
  clears the \<^verbatim>\<open>next\<close> of the block before the last and makes that block the tail.
\<close>

lemma free_loop_unlink:
  "chain (hdr s) a (pre @ [p, t]) \<Longrightarrow> tail s = t \<Longrightarrow>
     free_loop s a = Some (s\<lparr>hdr := (hdr s)(p := (hdr s p)\<lparr>s_next := 0\<rparr>), tail := p\<rparr>)"
proof (induction pre arbitrary: a)
  case Nil
  then show ?case
    by (subst free_loop.simps) (simp add: free_loop.simps free_loop_body_def)
next
  case (Cons x pre)
  from Cons.prems have ax: "a = x" "x \<noteq> 0"
    and rest: "chain (hdr s) (s_next (hdr s x)) (pre @ [p, t])" by simp_all
  have "distinct ((x # pre) @ [p, t])" using Cons.prems(1) by (rule chain_distinct)
  then have "distinct (x # pre @ [p, t])" by simp
  moreover from rest have "s_next (hdr s x) = hd (pre @ [p, t])" by (auto dest: chain_hd)
  ultimately have "s_next (hdr s x) \<noteq> t" by (cases pre) auto
  with ax Cons.prems(2) have "free_loop s a = free_loop s (s_next (hdr s x))"
    by (subst free_loop.simps) (simp add: free_loop_body_def)
  with Cons.IH [OF rest Cons.prems(2)] show ?case
    by (simp only:)
qed

subsection \<open>The block at the break is the tail\<close>

lemma contiguous_no_wrap: "contiguous h bs \<Longrightarrow> b \<in> set bs \<Longrightarrow> no_wrap h b"
  by (induction h bs rule: contiguous.induct) auto

lemma contiguous_tl: "contiguous h (b # bs) \<Longrightarrow> contiguous h bs"
  by (cases bs) auto

lemma no_wrap_unat_end: "no_wrap h b \<Longrightarrow> unat (block_end h b) = block_end_nat h b"
  by (simp add: no_wrap_def block_end_def block_end_nat_def unat_word_ariths)

lemma contiguous_increasing:
  "contiguous h (b # bs) \<Longrightarrow> 0 < unat (header_size :: 'w word) \<Longrightarrow> c \<in> set bs \<Longrightarrow>
     block_end_nat h b < block_end_nat h (c :: ('w :: len) word)"
proof (induction bs arbitrary: b)
  case Nil
  then show ?case by simp
next
  case (Cons d bs)
  from Cons.prems(1) have nw: "no_wrap h b" and d: "d = block_end h b"
    and rest: "contiguous h (d # bs)"
    by auto
  have "unat d = block_end_nat h b" using nw d by (simp add: no_wrap_unat_end)
  then have step: "block_end_nat h b < block_end_nat h d"
    using Cons.prems(2) by (simp add: block_end_nat_def)
  show ?case
  proof (cases "c = d")
    case True
    with step show ?thesis by simp
  next
    case False
    with Cons.prems have "c \<in> set bs" by simp
    from Cons.IH [OF rest Cons.prems(2) this] step show ?thesis by simp
  qed
qed

lemma terminal_is_last:
  "contiguous h bs \<Longrightarrow> 0 < unat (header_size :: 'w word) \<Longrightarrow> b \<in> set bs \<Longrightarrow>
     block_end h b = block_end h (last bs) \<Longrightarrow> (b :: ('w :: len) word) = last bs"
proof (induction bs)
  case Nil
  then show ?case by simp
next
  case (Cons x xs)
  show ?case
  proof (cases "xs = []")
    case True
    with Cons.prems show ?thesis by simp
  next
    case False
    then have l: "last (x # xs) = last xs" and lin: "last xs \<in> set xs" by simp_all
    show ?thesis
    proof (cases "b \<in> set xs")
      case True
      with Cons l show ?thesis by (auto dest: contiguous_tl)
    next
      case False
      with Cons.prems have bx: "b = x" by simp
      have "block_end_nat h x < block_end_nat h (last xs)"
        using Cons.prems(1,2) lin by (rule contiguous_increasing)
      moreover have "unat (block_end h x) = block_end_nat h x"
        using Cons.prems(1) by (auto intro!: no_wrap_unat_end contiguous_no_wrap)
      moreover have "unat (block_end h (last xs)) = block_end_nat h (last xs)"
        using Cons.prems(1) lin by (auto intro!: no_wrap_unat_end contiguous_no_wrap)
      ultimately show ?thesis using Cons.prems(4) l bx by simp
    qed
  qed
qed

lemma block_below_end:
  assumes "contiguous h bs" and "0 < unat (header_size :: 'w word)" and "b \<in> set bs"
  shows "unat (b :: ('w :: len) word) < block_end_nat h (last bs)"
proof -
  have "block_end_nat h b \<le> block_end_nat h (last bs)"
    using assms
  proof (induction bs)
    case Nil
    then show ?case by simp
  next
    case (Cons x xs)
    show ?case
    proof (cases "xs = []")
      case True
      with Cons.prems show ?thesis by simp
    next
      case False
      then have lin: "last xs \<in> set xs" and l: "last (x # xs) = last xs" by simp_all
      show ?thesis
      proof (cases "b \<in> set xs")
        case True
        with Cons l show ?thesis by (auto dest: contiguous_tl)
      next
        case False
        with Cons.prems have "b = x" by simp
        with contiguous_increasing [OF Cons.prems(1,2) lin] l show ?thesis by simp
      qed
    qed
  qed
  moreover have "unat b < block_end_nat h b"
    using assms(2) by (simp add: block_end_nat_def)
  ultimately show ?thesis by simp
qed

lemma contiguous_snoc:
  "contiguous h bs \<Longrightarrow> bs \<noteq> [] \<Longrightarrow> n = block_end h (last bs) \<Longrightarrow> no_wrap h n \<Longrightarrow>
     contiguous h (bs @ [n])"
  by (induction h bs rule: contiguous.induct) auto

lemma contiguous_butlast: "contiguous h bs \<Longrightarrow> contiguous h (butlast bs)"
  by (induction h bs rule: contiguous.induct) auto

lemma contiguous_last_two: "contiguous h (pre @ [p, t]) \<Longrightarrow> t = block_end h p"
  by (induction h pre rule: contiguous.induct) auto

lemma block_end_of_header:
  "block_end h (block - header_size) = block + s_size (h (block - header_size))"
  by (simp add: block_end_def)

subsection \<open>Releasing the block at the break\<close>

text \<open>
  The state after \<^verbatim>\<open>free\<close> of the block at the break of a well-formed heap: the
  block is the last of the list, and the list has either this block only or at least two
  blocks.
\<close>

lemma free_terminal_state:
  fixes s :: "('w :: len) heap"
  assumes platform: "LENGTH('w) = 32 \<or> LENGTH('w) = 64"
    and wf: "heap_wf s bs"
    and nonnull: "block \<noteq> 0"
    and listed: "block - header_size \<in> set bs"
    and terminal: "block + s_size (hdr s (block - header_size)) = brk s"
    and granted: "os (brk s) (0 - header_size - s_size (hdr s (block - header_size)))"
  shows "(bs = [block - header_size] \<and>
          free os block s =
            Some (s\<lparr>tail := 0, head := 0,
                    brk := brk s + (0 - header_size - s_size (hdr s (block - header_size))),
                    trace := trace s @ [Lock, Sbrk 0,
                      Sbrk (0 - header_size - s_size (hdr s (block - header_size))), Unlock]\<rparr>)) \<or>
         (\<exists>pre p. bs = pre @ [p, block - header_size] \<and>
          free os block s =
            Some (s\<lparr>hdr := (hdr s)(p := (hdr s p)\<lparr>s_next := 0\<rparr>), tail := p,
                    brk := brk s + (0 - header_size - s_size (hdr s (block - header_size))),
                    trace := trace s @ [Lock, Sbrk 0,
                      Sbrk (0 - header_size - s_size (hdr s (block - header_size))), Unlock]\<rparr>))"
proof -
  let ?hd = "block - header_size"
  let ?inc = "0 - header_size - s_size (hdr s ?hd)"
  let ?s2 = "s\<lparr>trace := trace s @ [Lock, Sbrk 0]\<rparr>"
  from listed have ne: "bs \<noteq> []" by auto
  from wf ne have ch: "chain (hdr s) (head s) bs" and tl: "tail s = last bs"
    and cont: "contiguous (hdr s) bs" and br: "brk s = block_end (hdr s) (last bs)"
    by (simp_all add: heap_wf_def)
  have hs: "0 < unat (header_size :: 'w word)"
    using platform by (auto simp: unat_header_size)
  have "block_end (hdr s) ?hd = block_end (hdr s) (last bs)"
    using terminal br by (simp add: block_end_of_header)
  with cont hs listed have last: "?hd = last bs" by (rule terminal_is_last)
  have dist: "distinct bs" using ch by (rule chain_distinct)
  have hd: "head s = hd bs" using ch ne by (auto dest: chain_hd)
  have pre: "free os block s =
      (case (if head s = tail s then Some (?s2\<lparr>tail := 0, head := 0\<rparr>)
             else free_loop ?s2 (head s)) of
         None \<Rightarrow> None
       | Some s3 \<Rightarrow> Some (pthread_mutex_unlock
           (snd (sbrk os (0 - header_size - s_size (hdr s3 ?hd)) s3))))"
    using nonnull terminal
    by (simp add: free_def sbrk_0 pthread_mutex_lock_def Let_def split_def
        split: option.splits)
  show ?thesis
  proof (cases "length bs = 1")
    case True
    then obtain t where bs: "bs = [t]" by (cases bs) auto
    with last hd tl have both: "?hd = t" "head s = tail s" by simp_all
    then have "free os block s = Some (pthread_mutex_unlock
        (snd (sbrk os ?inc (?s2\<lparr>tail := 0, head := 0\<rparr>))))"
      by (simp add: pre)
    with both bs granted show ?thesis
      by (simp add: sbrk_granted pthread_mutex_unlock_def)
  next
    case False
    with ne obtain pre p t where bs: "bs = pre @ [p, t]"
      by (metis append_Cons append_Nil append_assoc length_Cons list.size(3)
          One_nat_def rev_exhaust)
    with last tl have t: "?hd = t" "tail s = t" by simp_all
    from bs dist hd have ht: "head s \<noteq> t" by (cases pre) auto
    with t have neq: "head s \<noteq> tail s" by auto
    from bs dist have pt: "p \<noteq> t" by auto
    let ?s3 = "?s2\<lparr>hdr := (hdr s)(p := (hdr s p)\<lparr>s_next := 0\<rparr>), tail := p\<rparr>"
    have "free_loop ?s2 (head s) = Some ?s3"
      using free_loop_unlink [of ?s2 "head s" pre p t] ch bs t by simp
    with neq have "free os block s = Some (pthread_mutex_unlock
        (snd (sbrk os (0 - header_size - s_size (hdr ?s3 ?hd)) ?s3)))"
      by (simp add: pre)
    moreover have "hdr ?s3 ?hd = hdr s ?hd" using pt t by simp
    ultimately have "free os block s = Some (pthread_mutex_unlock (snd (sbrk os ?inc ?s3)))"
      by (simp only:)
    with granted bs t(1) show ?thesis
      by (simp add: sbrk_granted pthread_mutex_unlock_def)
  qed
qed

text \<open>
  Release at the break in a well-formed heap (on a platform with 4-byte or 8-byte words).
  Let \<^verbatim>\<open>free\<close> be called with a non-null address of a listed block that ends at the
  break, and let the operating system perform the shrink. Then \<^verbatim>\<open>free\<close> returns; if
  the block is both head and tail, head and tail become null (the list is empty);
  otherwise the listed block whose \<^verbatim>\<open>next\<close> is the freed block gets \<^verbatim>\<open>next\<close> null and
  becomes the tail, and no other header changes; and the break goes down by exactly
  \<open>header_size\<close> plus the recorded size of the block.
\<close>

theorem free_terminal_unlinks_and_shrinks:
  fixes s :: "('w :: len) heap"
  assumes platform: "LENGTH('w) = 32 \<or> LENGTH('w) = 64"
    and wf: "heap_wf s bs"
    and nonnull: "block \<noteq> 0"
    and listed: "block - header_size \<in> set bs"
    and terminal: "block + s_size (hdr s (block - header_size)) = brk s"
    and granted: "os (brk s) (0 - header_size - s_size (hdr s (block - header_size)))"
  shows "\<exists>s'. free os block s = Some s' \<and>
           (block - header_size = head s \<and> block - header_size = tail s \<longrightarrow>
              head s' = 0 \<and> tail s' = 0 \<and> hdr s' = hdr s) \<and>
           (\<not> (block - header_size = head s \<and> block - header_size = tail s) \<longrightarrow>
              (\<exists>p \<in> set bs. s_next (hdr s p) = block - header_size \<and>
                 hdr s' = (hdr s)(p := (hdr s p)\<lparr>s_next := 0\<rparr>) \<and>
                 tail s' = p \<and> head s' = head s)) \<and>
           brk s' = brk s - (header_size + s_size (hdr s (block - header_size))) \<and>
           mem s' = mem s"
proof -
  let ?t = "block - header_size"
  from free_terminal_state [where os = os, OF assms] show ?thesis
  proof (elim disjE exE conjE)
    assume bs: "bs = [?t]"
    assume "free os block s =
        Some (s\<lparr>tail := 0, head := 0,
                brk := brk s + (0 - header_size - s_size (hdr s ?t)),
                trace := trace s @ [Lock, Sbrk 0,
                  Sbrk (0 - header_size - s_size (hdr s ?t)), Unlock]\<rparr>)"
    moreover from wf bs have "head s = ?t" "tail s = ?t" by (simp_all add: heap_wf_def)
    ultimately show ?thesis by (simp add: diff_diff_eq)
  next
    fix pre p
    assume bs: "bs = pre @ [p, ?t]"
    assume f: "free os block s =
        Some (s\<lparr>hdr := (hdr s)(p := (hdr s p)\<lparr>s_next := 0\<rparr>), tail := p,
                brk := brk s + (0 - header_size - s_size (hdr s ?t)),
                trace := trace s @ [Lock, Sbrk 0,
                  Sbrk (0 - header_size - s_size (hdr s ?t)), Unlock]\<rparr>)"
    from wf bs have ch: "chain (hdr s) (head s) (pre @ [p, ?t])"
      by (simp add: heap_wf_def)
    then have "distinct (pre @ [p, ?t])" by (rule chain_distinct)
    moreover from ch have "head s = hd (pre @ [p, ?t])" by (auto dest: chain_hd)
    ultimately have ht: "head s \<noteq> ?t" by (cases pre) auto
    have pn: "s_next (hdr s p) = ?t" using ch by (rule chain_last_two)
    have "p \<in> set bs" using bs by simp
    with f ht pn show ?thesis by (auto simp: diff_diff_eq)
  qed
qed

text \<open>
  Both cases at work. Freeing \<open>Y\<close> (at 4160, the second of two blocks) makes the first
  block the tail, clears its \<^verbatim>\<open>next\<close> and moves the break from 4192 down by
  \<open>24 + 32\<close> to 4136; freeing \<open>X\<close> (at 4120) when it is the only block empties the list
  and moves the break from 4136 down by \<open>24 + 16\<close> to 4096.
\<close>

theorem free_terminal_unlinks_and_shrinks_witness:
  "heap_wf heap_xy [4096, 4136] \<and> (4160 :: 64 word) \<noteq> 0 \<and>
   4160 - header_size \<in> set [4096, 4136 :: 64 word] \<and>
   4160 + s_size (hdr heap_xy (4160 - header_size)) = brk heap_xy \<and>
   4160 - header_size \<noteq> head heap_xy \<and>
   (\<exists>s'. free os_grants_all 4160 heap_xy = Some s' \<and> s_next (hdr heap_xy 4096) = 4136 \<and>
      s_next (hdr s' 4096) = 0 \<and> tail s' = 4096 \<and> head s' = 4096 \<and> brk s' = 4136) \<and>
   heap_wf heap_x [4096] \<and> 4120 - header_size \<in> set [4096 :: 64 word] \<and>
   4120 + s_size (hdr heap_x (4120 - header_size)) = brk heap_x \<and>
   4120 - header_size = head heap_x \<and> 4120 - header_size = tail heap_x \<and>
   (\<exists>s'. free os_grants_all 4120 heap_x = Some s' \<and> head s' = 0 \<and> tail s' = 0 \<and>
      brk s' = 4096)"
  using free_terminal_unlinks_and_shrinks [of heap_xy "[4096, 4136]" 4160 os_grants_all]
    free_terminal_unlinks_and_shrinks [of heap_x "[4096]" 4120 os_grants_all]
  by (auto simp: heap_defs wf_defs)

subsection \<open>Releasing a block that is not at the break\<close>



subsection \<open>Well-formed heaps stay well-formed\<close>

text \<open>
  The empty heap is well-formed, and \<^verbatim>\<open>malloc\<close> and \<^verbatim>\<open>free\<close> keep a well-formed heap
  well-formed, as long as a new block fits below the end of the address space and the
  operating system performs the shrink that \<^verbatim>\<open>free\<close> asks for. \<^verbatim>\<open>malloc\<close> itself does
  not test that the block fits: the hypothesis \<open>room\<close> below is not something the code
  ensures.
\<close>

lemma heap_wf_empty: "head s = 0 \<Longrightarrow> tail s = 0 \<Longrightarrow> heap_wf s []"
  by (simp add: heap_wf_def)

lemma heap_wf_frame:
  assumes "heap_wf s bs"
    and "head s' = head s" "tail s' = tail s" "brk s' = brk s"
    and "\<forall>b \<in> set bs. s_next (hdr s' b) = s_next (hdr s b) \<and> s_size (hdr s' b) = s_size (hdr s b)"
  shows "heap_wf s' bs"
proof -
  have "chain (hdr s') (head s) bs = chain (hdr s) (head s) bs"
    using assms(5) by (intro chain_cong) simp
  moreover have "contiguous (hdr s') bs = contiguous (hdr s) bs"
    using assms(5) by (intro contiguous_cong) simp
  moreover have "bs \<noteq> [] \<Longrightarrow> block_end (hdr s') (last bs) = block_end (hdr s) (last bs)"
    using assms(5) by (simp add: block_end_def)
  ultimately show ?thesis using assms(1-4) by (auto simp: heap_wf_def)
qed

lemma heap_wf_grow:
  fixes s :: "('w :: len) heap"
  assumes hs: "0 < unat (header_size :: 'w word)"
    and wf: "heap_wf s bs"
    and room: "brk s \<noteq> 0" "unat (brk s) + unat (header_size :: 'w word) + unat sz < 2 ^ LENGTH('w)"
    and hdr': "hdr s' =
         (if tail s \<noteq> 0
          then ((hdr s)(brk s := (hdr s (brk s))\<lparr>s_size := sz, s_is_free := 0, s_next := 0\<rparr>))
                 (tail s := (((hdr s)(brk s := (hdr s (brk s))
                      \<lparr>s_size := sz, s_is_free := 0, s_next := 0\<rparr>)) (tail s))
                    \<lparr>s_next := brk s\<rparr>)
          else (hdr s)(brk s := (hdr s (brk s))\<lparr>s_size := sz, s_is_free := 0, s_next := 0\<rparr>))"
    and head': "head s' = (if head s = 0 then brk s else head s)"
    and tail': "tail s' = brk s"
    and brk': "brk s' = brk s + (header_size + sz)"
  shows "heap_wf s' (bs @ [brk s])"
proof (cases "bs = []")
  case True
  with wf have "head s = 0" "tail s = 0" by (simp_all add: heap_wf_def)
  with True room hdr' head' tail' brk' show ?thesis
    by (simp add: heap_wf_def no_wrap_def block_end_def block_end_nat_def add.assoc)
next
  case False
  let ?n = "brk s"
  from wf False have ch: "chain (hdr s) (head s) bs" and tl: "tail s = last bs"
    and cont: "contiguous (hdr s) bs" and br: "brk s = block_end (hdr s) (last bs)"
    by (simp_all add: heap_wf_def)
  have lin: "last bs \<in> set bs" using False by simp
  have "no_wrap (hdr s) (last bs)" using cont lin by (rule contiguous_no_wrap)
  then have ubrk: "unat ?n = block_end_nat (hdr s) (last bs)"
    using br by (simp add: no_wrap_unat_end)
  have fresh: "?n \<notin> set bs"
  proof
    assume "?n \<in> set bs"
    with cont hs have "unat ?n < block_end_nat (hdr s) (last bs)" by (rule block_below_end)
    with ubrk show False by simp
  qed
  have nz: "0 \<notin> set bs" using ch by (rule chain_nonnull)
  with lin tl have tnz: "tail s \<noteq> 0" by auto
  from fresh lin tl have tn: "tail s \<noteq> ?n" by auto
  have dist: "distinct bs" using ch by (rule chain_distinct)
  have hd: "head s \<noteq> 0" using ch False by (auto dest: chain_hd)
  have hn: "hdr s' ?n = (hdr s ?n)\<lparr>s_size := sz, s_is_free := 0, s_next := 0\<rparr>"
    using hdr' tnz tn by simp
  have ht: "hdr s' (last bs) = (hdr s (last bs))\<lparr>s_next := ?n\<rparr>"
    using hdr' tnz tn tl by simp
  have ho: "\<And>b. b \<noteq> ?n \<Longrightarrow> b \<noteq> last bs \<Longrightarrow> hdr s' b = hdr s b"
    using hdr' tnz tl by simp
  have sizes: "\<forall>b \<in> set bs. s_size (hdr s' b) = s_size (hdr s b)"
  proof
    fix b assume "b \<in> set bs"
    with fresh have "b \<noteq> ?n" by auto
    then show "s_size (hdr s' b) = s_size (hdr s b)"
      using ht ho [of b] by (cases "b = last bs") simp_all
  qed
  have nexts: "\<forall>b \<in> set (butlast bs). s_next (hdr s' b) = s_next (hdr s b)"
  proof
    fix b assume b: "b \<in> set (butlast bs)"
    then have "b \<in> set bs" by (rule in_set_butlastD)
    with fresh have "b \<noteq> ?n" by auto
    moreover from b last_notin_butlast [OF dist False] have "b \<noteq> last bs" by auto
    ultimately show "s_next (hdr s' b) = s_next (hdr s b)" using ho by simp
  qed
  have nw: "no_wrap (hdr s') ?n"
    using hn room(2) by (simp add: no_wrap_def block_end_nat_def)
  have "chain (hdr s') (head s) (bs @ [?n])"
    using ch False room(1) _ _ nexts
  proof (rule chain_snoc)
    show "s_next (hdr s' ?n) = 0" using hn by simp
    show "s_next (hdr s' (last bs)) = ?n" using ht by simp
  qed
  moreover have "contiguous (hdr s') (bs @ [?n])"
  proof (rule contiguous_snoc)
    show "contiguous (hdr s') bs" using contiguous_cong [OF sizes] cont by simp
    show "bs \<noteq> []" by fact
    show "?n = block_end (hdr s') (last bs)"
      using br ht by (simp add: block_end_def)
    show "no_wrap (hdr s') ?n" by fact
  qed
  moreover have "brk s' = block_end (hdr s') ?n"
    using brk' hn by (simp add: block_end_def add.assoc)
  ultimately show ?thesis
    using head' tail' hd by (simp add: heap_wf_def)
qed


lemma malloc_preserves_heap_wf:
  fixes s :: "('w :: len) heap"
  assumes platform: "LENGTH('w) = 32 \<or> LENGTH('w) = 64"
    and wf: "heap_wf s bs"
    and m: "malloc os sz s = Some (r, s')"
    and room: "brk s \<noteq> 0" "unat (brk s) + unat (header_size :: 'w word) + unat sz < 2 ^ LENGTH('w)"
  shows "heap_wf s' bs \<or> heap_wf s' (bs @ [brk s])"
proof (cases "sz = 0")
  case True
  with m have "s' = s" by (simp add: malloc_def)
  with wf show ?thesis by simp
next
  case False
  have hs: "0 < unat (header_size :: 'w word)"
    using platform by (auto simp: unat_header_size)
  have inc: "header_size + sz \<noteq> 0"
  proof
    assume "header_size + sz = 0"
    then have "unat (header_size + sz) = 0" by simp
    moreover have "unat (header_size + sz) = unat (header_size :: 'w word) + unat sz"
      using room(2) by (simp add: unat_word_ariths)
    ultimately show False using hs by simp
  qed
  have top: "brk s \<noteq> - 1"
  proof
    assume "brk s = - 1"
    then have "unat (brk s) = 2 ^ LENGTH('w) - 1"
      by (simp add: unsigned_minus_1_eq_mask mask_eq_exp_minus_1)
    with room(2) hs show False by simp
  qed
  from m False obtain h where g: "get_free_block s sz = Some h"
    by (auto dest: malloc_returns_search)
  show ?thesis
  proof (cases "h = 0")
    case hn: False
    from malloc_reuse_state [OF False g hn, of os] m
    have s': "s' = s\<lparr>hdr := (hdr s)(h := (hdr s h)\<lparr>s_is_free := 0\<rparr>),
                  trace := trace s @ [Lock, Unlock]\<rparr>" by simp
    have "heap_wf s' bs"
      by (rule heap_wf_frame [OF wf]) (simp_all add: s')
    then show ?thesis ..
  next
    case True
    with g have g0: "get_free_block s sz = Some 0" by simp
    show ?thesis
    proof (cases "os (brk s) (header_size + sz)")
      case no: False
      from malloc_refused_state [where os = os, OF False g0 inc no] m
      have s': "s' = s\<lparr>trace := trace s @ [Lock, Sbrk (header_size + sz), Unlock]\<rparr>"
        by simp
      have "heap_wf s' bs"
        by (rule heap_wf_frame [OF wf]) (simp_all add: s')
      then show ?thesis ..
    next
      case yes: True
      from malloc_grow_state [where os = os, OF False g0 inc yes top] obtain s''
        where m': "malloc os sz s = Some (brk s + header_size, s'')"
          and f: "hdr s'' =
         (if tail s \<noteq> 0
          then ((hdr s)(brk s := (hdr s (brk s))\<lparr>s_size := sz, s_is_free := 0, s_next := 0\<rparr>))
                 (tail s := (((hdr s)(brk s := (hdr s (brk s))
                      \<lparr>s_size := sz, s_is_free := 0, s_next := 0\<rparr>)) (tail s))
                    \<lparr>s_next := brk s\<rparr>)
          else (hdr s)(brk s := (hdr s (brk s))\<lparr>s_size := sz, s_is_free := 0, s_next := 0\<rparr>))"
          "head s'' = (if head s = 0 then brk s else head s)"
          "tail s'' = brk s"
          "brk s'' = brk s + (header_size + sz)"
        by blast
      from m m' have "s' = s''" by simp
      with f have "heap_wf s' (bs @ [brk s])"
        by (intro heap_wf_grow [OF hs wf room]) (simp_all only:)
      then show ?thesis ..
    qed
  qed
qed

lemma free_preserves_heap_wf:
  fixes s :: "('w :: len) heap"
  assumes platform: "LENGTH('w) = 32 \<or> LENGTH('w) = 64"
    and wf: "heap_wf s bs"
    and nonnull: "block \<noteq> 0"
    and listed: "block - header_size \<in> set bs"
    and granted: "block + s_size (hdr s (block - header_size)) = brk s \<Longrightarrow>
        os (brk s) (0 - header_size - s_size (hdr s (block - header_size)))"
  shows "\<exists>s'. free os block s = Some s' \<and>
           heap_wf s' (if block + s_size (hdr s (block - header_size)) = brk s
                       then butlast bs else bs)"
proof (cases "block + s_size (hdr s (block - header_size)) = brk s")
  case False
  have "free os block s =
           Some (s\<lparr>hdr := (hdr s)(block - header_size :=
                        (hdr s (block - header_size))\<lparr>s_is_free := 1\<rparr>),
                   trace := trace s @ [Lock, Sbrk 0, Unlock]\<rparr>)"
    using nonnull False
    by (simp add: free_def sbrk_0 pthread_mutex_lock_def pthread_mutex_unlock_def Let_def)
  moreover have "heap_wf (s\<lparr>hdr := (hdr s)(block - header_size :=
                        (hdr s (block - header_size))\<lparr>s_is_free := 1\<rparr>),
                   trace := trace s @ [Lock, Sbrk 0, Unlock]\<rparr>) bs"
    by (rule heap_wf_frame [OF wf]) simp_all
  ultimately show ?thesis using False by simp
next
  case True
  let ?t = "block - header_size"
  let ?inc = "0 - header_size - s_size (hdr s ?t)"
  from free_terminal_state [where os = os, OF platform wf nonnull listed True granted [OF True]]
  show ?thesis
  proof (elim disjE exE conjE)
    assume bs: "bs = [?t]"
      and f: "free os block s = Some (s\<lparr>tail := 0, head := 0, brk := brk s + ?inc,
                trace := trace s @ [Lock, Sbrk 0, Sbrk ?inc, Unlock]\<rparr>)"
    show ?thesis using True bs f by (simp add: heap_wf_def)
  next
    fix pre p
    assume bs: "bs = pre @ [p, ?t]"
      and f: "free os block s = Some (s\<lparr>hdr := (hdr s)(p := (hdr s p)\<lparr>s_next := 0\<rparr>),
                tail := p, brk := brk s + ?inc,
                trace := trace s @ [Lock, Sbrk 0, Sbrk ?inc, Unlock]\<rparr>)"
    let ?h' = "(hdr s)(p := (hdr s p)\<lparr>s_next := 0\<rparr>)"
    from wf bs have ch: "chain (hdr s) (head s) (pre @ [p, ?t])"
      and cont: "contiguous (hdr s) (pre @ [p, ?t])"
      and br: "brk s = block_end (hdr s) ?t"
      by (simp_all add: heap_wf_def)
    have "distinct (pre @ [p, ?t])" using ch by (rule chain_distinct)
    then have pn: "p \<notin> set pre" by simp
    have c1: "chain ?h' (head s) (pre @ [p])"
      using ch
    proof (rule chain_drop_last)
      show "s_next (?h' p) = 0" by simp
      show "\<forall>b \<in> set pre. s_next (?h' b) = s_next (hdr s b)" using pn by auto
    qed
    have "contiguous (hdr s) (butlast (pre @ [p, ?t]))"
      using cont by (rule contiguous_butlast)
    then have "contiguous (hdr s) (pre @ [p])" by (simp add: butlast_append)
    moreover have "\<forall>b \<in> set (pre @ [p]). s_size (?h' b) = s_size (hdr s b)" by simp
    ultimately have c2: "contiguous ?h' (pre @ [p])"
      using contiguous_cong [of "pre @ [p]" ?h' "hdr s"] by simp
    have "?t = block_end (hdr s) p" using cont by (rule contiguous_last_two)
    then have c3: "brk s + ?inc = block_end ?h' p"
      using br by (simp add: block_end_def)
    show ?thesis using True bs f c1 c2 c3
      by (simp add: heap_wf_def butlast_append)
  qed
qed

subsection \<open>Releasing the block at the break when it is not the tail\<close>

text \<open>
  \<^verbatim>\<open>malloc\<close> adds \<^verbatim>\<open>sizeof(header_t)\<close> and the size without the overflow test that
  \<^verbatim>\<open>calloc\<close> makes for its product. \<^verbatim>\<open>malloc(2^64 - 24)\<close> after \<^verbatim>\<open>malloc(16)\<close>
  computes a total of 0, so \<^verbatim>\<open>sbrk(0)\<close> succeeds without moving the break: the new
  block \<open>Y\<close> becomes the tail, with its header at the break, and the older block \<open>X\<close>
  still ends at the break. The heap is no longer well-formed.
\<close>

lemma heap_wrap_reached:
  "malloc os_grants_all 18446744073709551592 heap_x = Some (4160, heap_wrap)"
  by (simp add: op_defs heap_defs get_free_block_loop.simps fun_upd_twist)

text \<open>
  Claim C1 fails in the code there. \<open>X\<close> (address 4120, header 4096) is non-null and
  ends at the break; it is the head and not the tail, and no block has it as \<^verbatim>\<open>next\<close>.
  \<^verbatim>\<open>free(X)\<close> tests \<^verbatim>\<open>head == tail\<close> and searches for the block before \<^verbatim>\<open>tail\<close>, not
  before the freed block: it finds \<open>X\<close> itself, clears the \<^verbatim>\<open>next\<close> of \<open>X\<close> and makes
  \<open>X\<close> the tail. So \<open>Y\<close> is unlinked, and the freed block stays in the list as head and
  tail, not marked free, while the break goes down by \<open>24 + 16\<close> to its header.
\<close>

theorem free_terminal_not_tail_unlinks_other_block:
  "malloc os_grants_all 16 heap0 = Some (4120, heap_x) \<and>
   malloc os_grants_all 18446744073709551592 heap_x = Some (4160, heap_wrap) \<and>
   (4120 :: 64 word) \<noteq> 0 \<and>
   4120 + s_size (hdr heap_wrap (4120 - header_size)) = brk heap_wrap \<and>
   4120 - header_size = head heap_wrap \<and> 4120 - header_size \<noteq> tail heap_wrap \<and>
   s_next (hdr heap_wrap 4096) \<noteq> 4120 - header_size \<and>
   s_next (hdr heap_wrap 4136) \<noteq> 4120 - header_size \<and>
   free os_grants_all 4120 heap_wrap = Some heap_wrap_freed \<and>
   head heap_wrap_freed = 4120 - header_size \<and>
   tail heap_wrap_freed = 4120 - header_size \<and>
   s_is_free (hdr heap_wrap_freed (4120 - header_size)) = 0 \<and>
   brk heap_wrap_freed = brk heap_wrap - (header_size + 16)"
  using heap_x_reached heap_wrap_reached
  by (simp add: op_defs heap_defs free_loop.simps fun_upd_twist)

section \<open>Zero-initialised allocation\<close>

text \<open>
  The test \<^verbatim>\<open>nsize != size / num\<close> on the wrapped product fires exactly when the product
  of the two numbers does not fit the word.
\<close>

lemma calloc_check_iff_overflow:
  fixes num nsize :: "'w :: len word"
  assumes "num \<noteq> 0"
  shows "nsize \<noteq> num * nsize div num \<longleftrightarrow> 2 ^ LENGTH('w) \<le> unat num * unat nsize"
proof -
  have n0: "0 < unat num" using assms by (simp add: unat_gt_0)
  have eq: "unat (num * nsize div num) =
      (unat num * unat nsize mod 2 ^ LENGTH('w)) div unat num"
    by (simp add: unat_div unat_word_ariths)
  show ?thesis
  proof
    assume ne: "nsize \<noteq> num * nsize div num"
    show "2 ^ LENGTH('w) \<le> unat num * unat nsize"
    proof (rule ccontr)
      assume "\<not> ?thesis"
      then have "unat (num * nsize div num) = unat nsize"
        using n0 by (simp add: eq)
      then show False using ne by (simp add: word_unat_eq_iff)
    qed
  next
    assume ov: "2 ^ LENGTH('w) \<le> unat num * unat nsize"
    show "nsize \<noteq> num * nsize div num"
    proof
      assume "nsize = num * nsize div num"
      then have "unat nsize = (unat num * unat nsize mod 2 ^ LENGTH('w)) div unat num"
        using eq by simp
      then have "unat nsize * unat num \<le> unat num * unat nsize mod 2 ^ LENGTH('w)"
        by (metis div_times_less_eq_dividend)
      also have "\<dots> < 2 ^ LENGTH('w)" by simp
      finally show False using ov by (simp add: mult.commute)
    qed
  qed
qed

text \<open>
  Claim C4. When both arguments of \<^verbatim>\<open>calloc\<close> are nonzero and their product overflows
  the word (equivalently, \<^verbatim>\<open>nsize\<close> differs from the wrapped product divided by
  \<^verbatim>\<open>num\<close>), \<^verbatim>\<open>calloc\<close> returns the null pointer and the state it was given: no header,
  byte or break has changed and the trace has no new entry, so neither the lock of
  \<^verbatim>\<open>malloc\<close> nor \<^verbatim>\<open>sbrk\<close> was called. It returns even where \<^verbatim>\<open>malloc\<close> would not.
\<close>

theorem calloc_overflow_returns_null:
  fixes num nsize :: "'w :: len word"
  assumes "num \<noteq> 0" and "nsize \<noteq> 0"
    and "2 ^ LENGTH('w) \<le> unat num * unat nsize \<or> nsize \<noteq> num * nsize div num"
  shows "calloc os num nsize s = Some (0, s)"
  using assms calloc_check_iff_overflow [of num nsize]
  by (auto simp: calloc_def Let_def)

text \<open>Three elements of \<open>2^63\<close> bytes on a 64-bit platform.\<close>

theorem calloc_overflow_returns_null_witness:
  "(3 :: 64 word) \<noteq> 0 \<and> (9223372036854775808 :: 64 word) \<noteq> 0 \<and>
   2 ^ LENGTH(64) \<le> unat (3 :: 64 word) * unat (9223372036854775808 :: 64 word) \<and>
   (9223372036854775808 :: 64 word) \<noteq> 3 * 9223372036854775808 div 3 \<and>
   calloc os_grants_all 3 9223372036854775808 heap_xy = Some (0, heap_xy)"
  using calloc_overflow_returns_null [of 3 9223372036854775808 os_grants_all heap_xy]
  by simp

text \<open>
  Claim C5, as the code has it. After a successful \<^verbatim>\<open>calloc(num, nsize)\<close> the product
  did not overflow, the first \<open>num * nsize\<close> bytes at the returned address read as zero,
  and every byte outside them is what it was before the call. The bytes of a larger
  reused block beyond the requested ones are therefore not cleared.
\<close>

theorem calloc_zeroes_requested_bytes:
  fixes num nsize :: "('w :: len) word"
  assumes "calloc os num nsize s = Some (block, s')" and "block \<noteq> 0"
  shows "unat num * unat nsize < 2 ^ LENGTH('w) \<and>
         (\<forall>i. i < num * nsize \<longrightarrow> mem s' (block + i) = 0) \<and>
         (\<forall>a. \<not> a - block < num * nsize \<longrightarrow> mem s' a = mem s a)"
proof -
  from assms have nz: "num \<noteq> 0" "nsize \<noteq> 0" and chk: "nsize = num * nsize div num"
    by (auto simp: calloc_def Let_def split: if_splits)
  from assms nz chk obtain s1 where m: "malloc os (num * nsize) s = Some (block, s1)"
    and s': "s' = memset block 0 (num * nsize) s1"
    by (auto simp: calloc_def Let_def split: if_splits option.splits)
  have "unat num * unat nsize < 2 ^ LENGTH('w)"
    using calloc_check_iff_overflow [OF nz(1), of nsize] chk by simp
  moreover have "mem s1 = mem s" using m by (rule malloc_mem)
  ultimately show ?thesis using s' by (simp add: memset_def)
qed

theorem calloc_zeroes_requested_bytes_witness:
  "calloc os_grants_all 1 10 heap_dirty = Some (4120, heap_dirty_calloc) \<and>
   (4120 :: 64 word) \<noteq> 0 \<and>
   mem heap_dirty_calloc (4120 + 9) = 0 \<and> mem heap_dirty_calloc 4130 = mem heap_dirty 4130"
  using calloc_zeroes_requested_bytes [of os_grants_all 1 10 heap_dirty 4120 heap_dirty_calloc]
  by (simp add: op_defs heap_defs get_free_block_loop.simps)

text \<open>
  Claim C5 as stated fails: \<^verbatim>\<open>calloc(1, 10)\<close> reuses the free block \<open>X\<close> of 16 bytes,
  and the byte at \<open>X + 10\<close>, inside the usable region of the block handed back, still
  reads 255.
\<close>

theorem calloc_reused_block_not_all_zero:
  "calloc os_grants_all 1 10 heap_dirty = Some (4120, heap_dirty_calloc) \<and>
   (10 :: 64 word) < s_size (hdr heap_dirty_calloc (4120 - header_size)) \<and>
   mem heap_dirty_calloc (4120 + 10) = 255"
  by (simp add: op_defs heap_defs get_free_block_loop.simps)

section \<open>Resizing\<close>

text \<open>
  Claim C6. When the address is null or the new size is zero, \<^verbatim>\<open>realloc\<close> is
  \<^verbatim>\<open>malloc\<close> of the new size: same result, same state. So \<^verbatim>\<open>realloc(NULL, n)\<close> allocates
  as \<^verbatim>\<open>malloc(n)\<close> does, and \<^verbatim>\<open>realloc(p, 0)\<close> returns the null pointer and leaves the
  state as it is.
\<close>

theorem realloc_null_or_zero_is_malloc:
  assumes "block = 0 \<or> sz = 0"
  shows "realloc os block sz s = malloc os sz s \<and>
         (sz = 0 \<longrightarrow> realloc os block sz s = Some (0, s))"
  using assms by (auto simp: realloc_def malloc_def)

theorem realloc_null_or_zero_is_malloc_witness:
  "realloc os_grants_all 0 16 heap0 = malloc os_grants_all 16 heap0 \<and>
   realloc os_grants_all 0 16 heap0 = Some (4120, heap_x) \<and>
   realloc os_grants_all 4120 0 heap_x = malloc os_grants_all 0 heap_x \<and>
   realloc os_grants_all 4120 0 heap_x = Some (0, heap_x)"
  using realloc_null_or_zero_is_malloc [of 0 16 os_grants_all heap0]
    realloc_null_or_zero_is_malloc [of 4120 0 os_grants_all heap_x]
    heap_x_reached
  by (simp add: malloc_def)

text \<open>
  Claim C7. When the address is not null, the new size is not zero and the recorded size
  of the block is at least the new size, \<^verbatim>\<open>realloc\<close> returns the address it was given
  and the state it was given: nothing is allocated or copied, no header and no byte
  changes, the break stays, and the trace has no new entry.
\<close>

theorem realloc_fits_in_place:
  assumes "block \<noteq> 0" and "sz \<noteq> 0" and "sz \<le> s_size (hdr s (block - header_size))"
  shows "realloc os block sz s = Some (block, s)"
  using assms by (simp add: realloc_def)

theorem realloc_fits_in_place_witness:
  "(4120 :: 64 word) \<noteq> 0 \<and> (10 :: 64 word) \<noteq> 0 \<and>
   10 \<le> s_size (hdr heap_xy (4120 - header_size)) \<and>
   realloc os_grants_all 4120 10 heap_xy = Some (4120, heap_xy)"
  using realloc_fits_in_place [of 4120 10 heap_xy os_grants_all]
  by (simp add: heap_defs)

text \<open>
  Claim C8. Let the address be non-null and the new size larger than the recorded size of
  the block, let the inner \<^verbatim>\<open>malloc\<close> return the null pointer, and let the break not
  lie \<open>header_size\<close> bytes below the end of the address space (where a fresh block's
  address would itself be the null pointer). Then \<^verbatim>\<open>realloc\<close> returns the null pointer
  with the state \<^verbatim>\<open>malloc\<close> left, \<^verbatim>\<open>free\<close> is not called, and the old block's header
  (\<^verbatim>\<open>is_free\<close>, size, \<^verbatim>\<open>next\<close>), all bytes, head and tail are what they were.
\<close>

theorem realloc_failure_keeps_old_block:
  assumes "block \<noteq> 0"
    and "s_size (hdr s (block - header_size)) < sz"
    and "malloc os sz s = Some (0, s1)"
    and "brk s + header_size \<noteq> 0"
  shows "realloc os block sz s = Some (0, s1) \<and>
         hdr s1 (block - header_size) = hdr s (block - header_size) \<and>
         mem s1 = mem s \<and> head s1 = head s \<and> tail s1 = tail s"
proof -
  from assms(2) have sz: "sz \<noteq> 0" "\<not> sz \<le> s_size (hdr s (block - header_size))"
    by auto
  then have "realloc os block sz s = Some (0, s1)"
    using assms(1,3) by (simp add: realloc_def)
  moreover have "hdr s1 (block - header_size) = hdr s (block - header_size) \<and>
         mem s1 = mem s \<and> head s1 = head s \<and> tail s1 = tail s"
    using assms(1,3,4) sz(1)
    by (auto simp: malloc_def sbrk_def pthread_mutex_lock_def pthread_mutex_unlock_def Let_def
        split: if_splits option.splits)
  ultimately show ?thesis by simp
qed

text \<open>
  Growing \<open>X\<close> from 16 to 100 bytes when no free block fits and the operating system
  refuses to move the break.
\<close>

theorem realloc_failure_keeps_old_block_witness:
  "(4120 :: 64 word) \<noteq> 0 \<and> s_size (hdr heap_xy (4120 - header_size)) < 100 \<and>
   malloc os_refuses_all 100 heap_xy =
     Some (0, heap_xy\<lparr>trace := trace heap_xy @ [Lock, Sbrk 124, Unlock]\<rparr>) \<and>
   brk heap_xy + header_size \<noteq> 0 \<and>
   realloc os_refuses_all 4120 100 heap_xy =
     Some (0, heap_xy\<lparr>trace := trace heap_xy @ [Lock, Sbrk 124, Unlock]\<rparr>)"
  using realloc_failure_keeps_old_block [of 4120 heap_xy 100 os_refuses_all
      "heap_xy\<lparr>trace := trace heap_xy @ [Lock, Sbrk 124, Unlock]\<rparr>"]
  by (simp add: op_defs heap_defs get_free_block_loop.simps)

section \<open>The size of the header\<close>

text \<open>
  \<^verbatim>\<open>sizeof(header_t)\<close> is 16 where \<^verbatim>\<open>size_t\<close> and pointers have 4 bytes, and 24 where
  they have 8 bytes: there the struct alone takes \<open>8 + 4 + 4 + 8\<close> bytes, more than the
  16 bytes of the stub.
\<close>

lemma sizeof_header_t_ilp32_lp64:
  "sizeof_s 4 = 12 \<and> sizeof_header_t 4 = 16 \<and> sizeof_s 8 = 24 \<and> sizeof_header_t 8 = 24"
  by (simp add: layout_defs)

text \<open>
  Every non-null address \<^verbatim>\<open>malloc\<close> returns is the address of a header (the reused
  one, or the new one at the old break) plus \<^verbatim>\<open>sizeof(header_t)\<close>.
\<close>

lemma malloc_returns_header_plus_sizeof:
  assumes "malloc os sz s = Some (r, s')" and "r \<noteq> 0"
  shows "\<exists>h. r = h + header_size \<and> r - header_size = h \<and>
              (get_free_block s sz = Some h \<and> h \<noteq> 0 \<or>
               get_free_block s sz = Some 0 \<and> h = brk s)"
proof -
  from assms have sz: "sz \<noteq> 0" by (auto simp: malloc_def)
  from assms sz obtain h where g: "get_free_block s sz = Some h"
    by (auto dest: malloc_returns_search)
  show ?thesis
  proof (cases "h = 0")
    case False
    with assms sz g have "r = h + header_size"
      by (simp add: malloc_reuse_state)
    with g False show ?thesis by simp
  next
    case True
    with assms sz g have "r = brk s + header_size"
      by (auto simp: malloc_def sbrk_def pthread_mutex_lock_def pthread_mutex_unlock_def
          get_free_block_def Let_def split: if_splits)
    with g True show ?thesis by simp
  qed
qed

text \<open>
  Claim C10 fails in the code where \<^verbatim>\<open>size_t\<close> and pointers have 8 bytes. The header
  takes 24 bytes, not 16: the first block of the empty heap, whose header is at 4096, a
  multiple of 16, is handed out at \<open>4096 + 24 = 4120\<close>, not at \<open>4096 + 16 = 4112\<close>, and
  4120 is 8 modulo 16, not aligned to 16 bytes as the comment above the declaration of
  \<^verbatim>\<open>ALIGN\<close> says of the memory given to the caller.
\<close>

theorem header_size_lp64_is_24_not_16:
  "sizeof_s 8 = 24 \<and> sizeof_header_t 8 = 24 \<and>
   (header_size :: 64 word) = 24 \<and> (header_size :: 64 word) \<noteq> 16 \<and>
   malloc os_grants_all 16 heap0 = Some (4120, heap_x) \<and> head heap_x = 4096 \<and>
   (4120 :: 64 word) = head heap_x + 24 \<and> (4120 :: 64 word) \<noteq> head heap_x + 16 \<and>
   unat (head heap_x) mod 16 = 0 \<and> unat (4120 :: 64 word) mod 16 = 8"
  using heap_x_reached by (simp add: layout_defs heap_x_def)

end
